theory Spec2Isabelle
  imports Main "HOL-Library.Multiset"
begin

section \<open>A priority queue on an unbalanced binary search tree (pq.py)\<close>

subsection \<open>Errors and trees\<close>

text \<open>
  The two ways in which the Python code stops with an exception:
  \<^item> \<open>AttributeError\<close>: \<^verbatim>\<open>tree.left\<close> or \<^verbatim>\<open>tree.right\<close> is read while \<^verbatim>\<open>tree\<close> is \<^verbatim>\<open>None\<close>;
  \<^item> \<open>AssertionError\<close>: an \<^verbatim>\<open>assert\<close> statement fails.
  A function that can raise returns \<open>error + 'a\<close>, with \<open>Inl\<close> for the exception.
\<close>

datatype error = AttributeError | AssertionError

text \<open>
  \<^verbatim>\<open>Tree = Optional[Node[T]]\<close>: \<open>Empty\<close> is Python's \<^verbatim>\<open>None\<close>, and \<open>Node value left right\<close>
  is the dataclass \<^verbatim>\<open>Node(value, left, right)\<close>. Values are compared with \<^verbatim>\<open><\<close> and
  \<^verbatim>\<open>>\<close> only; the value type is a linear order.
\<close>

datatype 'a tree = Empty | Node 'a "'a tree" "'a tree"

fun contains :: "'a::linorder tree \<Rightarrow> 'a \<Rightarrow> bool" where
  "contains Empty val = False"
| "contains (Node v l r) val =
     (if val < v then contains l val
      else if val > v then contains r val
      else True)"

fun insert_tree :: "'a::linorder tree \<Rightarrow> 'a \<Rightarrow> 'a tree" where
  "insert_tree Empty val = Node val Empty Empty"
| "insert_tree (Node v l r) val =
     (if val < v then Node v (insert_tree l val) r
      else if val > v then Node v l (insert_tree r val)
      else Node v l r)"

text \<open>
  \<^verbatim>\<open>rightmost\<close> and \<^verbatim>\<open>leftmost\<close> read \<^verbatim>\<open>tree.right\<close> (\<^verbatim>\<open>tree.left\<close>) in the loop
  condition, which raises on \<^verbatim>\<open>None\<close>; a node object is truthy, so the loop runs
  while the child is not \<^verbatim>\<open>None\<close>.
\<close>

fun rightmost :: "'a tree \<Rightarrow> error + 'a" where
  "rightmost Empty = Inl AttributeError"
| "rightmost (Node v l r) = (if r \<noteq> Empty then rightmost r else Inr v)"

fun leftmost :: "'a tree \<Rightarrow> error + 'a" where
  "leftmost Empty = Inl AttributeError"
| "leftmost (Node v l r) = (if l \<noteq> Empty then leftmost l else Inr v)"

fun remove :: "'a::linorder tree \<Rightarrow> 'a \<Rightarrow> error + 'a tree" where
  "remove Empty val = Inr Empty"
| "remove (Node v l r) val =
     (if val < v then
        (case remove l val of Inl e \<Rightarrow> Inl e | Inr l' \<Rightarrow> Inr (Node v l' r))
      else if val > v then
        (case remove r val of Inl e \<Rightarrow> Inl e | Inr r' \<Rightarrow> Inr (Node v l r'))
      else if l = Empty then Inr r
      else if r = Empty then Inr l
      else
        (case rightmost l of
           Inl e \<Rightarrow> Inl e
         | Inr rm_val \<Rightarrow>
             (case remove l rm_val of
                Inl e \<Rightarrow> Inl e
              | Inr l' \<Rightarrow> Inr (Node rm_val l' r))))"

text \<open>The generator \<^verbatim>\<open>iterate\<close>, as the list of the values it yields.\<close>

fun iterate :: "'a tree \<Rightarrow> 'a list" where
  "iterate Empty = []"
| "iterate (Node v l r) = iterate l @ [v] @ iterate r"

subsection \<open>The classes SearchTree and PriorityQueue\<close>

text \<open>
  An object of class \<^verbatim>\<open>SearchTree\<close> has the one field \<^verbatim>\<open>root\<close>. A method that assigns
  to \<^verbatim>\<open>self.root\<close> returns the updated object. \<^verbatim>\<open>PriorityQueue\<close> is a subclass adding
  two methods and no field.
\<close>

record 'a SearchTree =
  root :: "'a tree"

type_synonym 'a PriorityQueue = "'a SearchTree"

definition st_contains :: "'a::linorder SearchTree \<Rightarrow> 'a \<Rightarrow> bool" where
  "st_contains self val = contains (root self) val"

definition st_insert :: "'a::linorder SearchTree \<Rightarrow> 'a \<Rightarrow> 'a SearchTree" where
  "st_insert self val = self\<lparr>root := insert_tree (root self) val\<rparr>"

definition st_remove :: "'a::linorder SearchTree \<Rightarrow> 'a \<Rightarrow> error + 'a SearchTree" where
  "st_remove self val =
     (case remove (root self) val of
        Inl e \<Rightarrow> Inl e
      | Inr t \<Rightarrow> Inr (self\<lparr>root := t\<rparr>))"

definition st_iter :: "'a SearchTree \<Rightarrow> 'a list" where
  "st_iter self = iterate (root self)"

definition st_bool :: "'a SearchTree \<Rightarrow> bool" where
  "st_bool self = (root self \<noteq> Empty)"

text \<open>\<^verbatim>\<open>SearchTree.__init__(data, tree)\<close>: start from \<^verbatim>\<open>tree\<close>, insert the data in order.\<close>

definition SearchTree_init :: "'a::linorder list \<Rightarrow> 'a tree \<Rightarrow> 'a SearchTree" where
  "SearchTree_init data tree = foldl st_insert \<lparr>root = tree\<rparr> data"

definition st_sort :: "'a::linorder list \<Rightarrow> 'a list" where
  "st_sort x = st_iter (SearchTree_init x Empty)"

definition min_val :: "'a PriorityQueue \<Rightarrow> error + 'a" where
  "min_val self = leftmost (root self)"

definition delete_min :: "'a::linorder PriorityQueue \<Rightarrow> error + 'a \<times> 'a PriorityQueue" where
  "delete_min self =
     (case min_val self of
        Inl e \<Rightarrow> Inl e
      | Inr minimum \<Rightarrow>
          (case st_remove self minimum of
             Inl e \<Rightarrow> Inl e
           | Inr self' \<Rightarrow> Inr (minimum, self')))"

text \<open>
  The loop of \<^verbatim>\<open>pq_sort\<close>: \<^verbatim>\<open>while pq.root: sorted.append(pq.delete_min())\<close>. On a tree
  that is not a search tree \<^verbatim>\<open>delete_min\<close> may remove nothing, and the loop then runs
  forever: not returning is the value \<open>None\<close>.
\<close>

partial_function (option) pq_sort_loop ::
  "'a::linorder PriorityQueue \<Rightarrow> 'a list \<Rightarrow> (error + 'a list) option" where
  "pq_sort_loop pq srt =
     (if root pq \<noteq> Empty then
        (case delete_min pq of
           Inl e \<Rightarrow> Some (Inl e)
         | Inr (m, pq') \<Rightarrow> pq_sort_loop pq' (srt @ [m]))
      else Some (Inr srt))"

definition pq_sort :: "'a::linorder list \<Rightarrow> (error + 'a list) option" where
  "pq_sort x = pq_sort_loop (SearchTree_init x Empty) []"

subsection \<open>Merging\<close>

text \<open>
  The merge functions receive two references to queue objects, which the destructive
  variants update. Objects live in a store, a function from references to objects; the
  caller's \<^verbatim>\<open>x\<close> and \<^verbatim>\<open>y\<close> are references, and \<^verbatim>\<open>x is y\<close> is \<open>x = y\<close>. A merge
  returns the store it leaves behind together with its result: the reference it was
  given (\<^verbatim>\<open>return x\<close>) or the object it built (\<^verbatim>\<open>return PriorityQueue(merged)\<close>, an
  object that no reference of the store denotes).
\<close>

type_synonym ref = nat

type_synonym 'a store = "ref \<Rightarrow> 'a PriorityQueue"

text \<open>
  \<^verbatim>\<open>while y.root: x.insert(y.delete_min())\<close>. The argument is evaluated first, so
  \<^verbatim>\<open>y\<close> is updated before \<^verbatim>\<open>x\<close> is read.
\<close>

partial_function (option) general_merge ::
  "'a::linorder store \<Rightarrow> ref \<Rightarrow> ref \<Rightarrow> (error + 'a store \<times> ref) option" where
  "general_merge h x y =
     (if root (h y) \<noteq> Empty then
        (case delete_min (h y) of
           Inl e \<Rightarrow> Some (Inl e)
         | Inr (m, yq) \<Rightarrow>
             general_merge ((h(y := yq))(x := st_insert ((h(y := yq)) x) m)) x y)
      else Some (Inr (h, x)))"

text \<open>
  The two-index loop of \<^verbatim>\<open>general_merge_persistent\<close>; it returns the indices and the
  list \<^verbatim>\<open>merged\<close> at the loop's exit. Both indices are in range where the lists are read.
\<close>

function merge_loop ::
  "'a::linorder list \<Rightarrow> 'a list \<Rightarrow> nat \<Rightarrow> nat \<Rightarrow> 'a list \<Rightarrow> nat \<times> nat \<times> 'a list" where
  "merge_loop pq1 pq2 i j merged =
     (if i < length pq1 \<and> j < length pq2 then
        (if pq1 ! i < pq2 ! j then merge_loop pq1 pq2 (i + 1) j (merged @ [pq1 ! i])
         else merge_loop pq1 pq2 i (j + 1) (merged @ [pq2 ! j]))
      else (i, j, merged))"
  by pat_completeness auto
termination
  by (relation "measure (\<lambda>(pq1, pq2, i, j, merged). (length pq1 - i) + (length pq2 - j))") auto

text \<open>
  \<^verbatim>\<open>pq_sort(x)\<close> iterates the queue \<^verbatim>\<open>x\<close> (its \<^verbatim>\<open>__iter__\<close>) into a queue of its own;
  \<^verbatim>\<open>x\<close> and \<^verbatim>\<open>y\<close> are only read.
\<close>

definition general_merge_persistent ::
  "'a::linorder store \<Rightarrow> ref \<Rightarrow> ref \<Rightarrow> (error + 'a store \<times> 'a PriorityQueue) option" where
  "general_merge_persistent h x y =
     (case pq_sort (st_iter (h x)) of
        None \<Rightarrow> None
      | Some (Inl e) \<Rightarrow> Some (Inl e)
      | Some (Inr pq1) \<Rightarrow>
          (case pq_sort (st_iter (h y)) of
             None \<Rightarrow> None
           | Some (Inl e) \<Rightarrow> Some (Inl e)
           | Some (Inr pq2) \<Rightarrow>
               (case merge_loop pq1 pq2 0 0 [] of
                  (i, j, merged) \<Rightarrow>
                    Some (Inr (h, SearchTree_init (merged @ drop i pq1 @ drop j pq2) Empty)))))"

text \<open>
  \<^verbatim>\<open>special_merge\<close> assigns to the field \<^verbatim>\<open>right\<close> of the last node on the right spine of
  \<^verbatim>\<open>x.root\<close>. Trees are values here, so the assignment is the rebuilding of that spine:
  \<open>attach_right t n\<close> is \<open>t\<close> with \<open>n\<close> as the right child of its rightmost node. The
  cursor \<^verbatim>\<open>tree\<close> of the source is always that node: the first loop moves it there, and
  each round moves it to the node just attached. Walking from \<^verbatim>\<open>None\<close> raises, as
  \<^verbatim>\<open>while tree.right\<close> does. This is what the object \<^verbatim>\<open>x\<close> denotes afterwards provided
  the nodes of its right spine are reachable from \<^verbatim>\<open>x\<close> alone; other trees that share
  these nodes (older versions of \<^verbatim>\<open>x\<close>, or \<^verbatim>\<open>y\<close> when \<^verbatim>\<open>x is y\<close>) are outside this model.
\<close>

fun attach_right :: "'a tree \<Rightarrow> 'a tree \<Rightarrow> error + 'a tree" where
  "attach_right Empty n = Inl AttributeError"
| "attach_right (Node v l r) n =
     (if r \<noteq> Empty then
        (case attach_right r n of Inl e \<Rightarrow> Inl e | Inr r' \<Rightarrow> Inr (Node v l r'))
      else Inr (Node v l n))"

partial_function (option) special_merge_loop ::
  "'a::linorder store \<Rightarrow> ref \<Rightarrow> ref \<Rightarrow> (error + 'a store \<times> ref) option" where
  "special_merge_loop h x y =
     (if root (h y) \<noteq> Empty then
        (case delete_min (h y) of
           Inl e \<Rightarrow> Some (Inl e)
         | Inr (m, yq) \<Rightarrow>
             (case attach_right (root ((h(y := yq)) x)) (Node m Empty Empty) of
                Inl e \<Rightarrow> Some (Inl e)
              | Inr t \<Rightarrow>
                  special_merge_loop ((h(y := yq))(x := ((h(y := yq)) x)\<lparr>root := t\<rparr>)) x y))
      else Some (Inr (h, x)))"

definition special_merge ::
  "'a::linorder store \<Rightarrow> ref \<Rightarrow> ref \<Rightarrow> (error + 'a store \<times> ref) option" where
  "special_merge h x y =
     (case rightmost (root (h x)) of
        Inl e \<Rightarrow> Some (Inl e)
      | Inr largest_x \<Rightarrow>
          (case min_val (h y) of
             Inl e \<Rightarrow> Some (Inl e)
           | Inr smallest_y \<Rightarrow>
               if \<not> largest_x < smallest_y then Some (Inl AssertionError)
               else special_merge_loop h x y))"

definition special_merge_persistent ::
  "'a::linorder store \<Rightarrow> ref \<Rightarrow> ref \<Rightarrow> (error + 'a store \<times> 'a PriorityQueue) option" where
  "special_merge_persistent h x y =
     (case rightmost (root (h x)) of
        Inl e \<Rightarrow> Some (Inl e)
      | Inr largest_x \<Rightarrow>
          (case min_val (h y) of
             Inl e \<Rightarrow> Some (Inl e)
           | Inr smallest_y \<Rightarrow>
               if \<not> largest_x < smallest_y then Some (Inl AssertionError)
               else
                 (case pq_sort (st_iter (h x)) of
                    None \<Rightarrow> None
                  | Some (Inl e) \<Rightarrow> Some (Inl e)
                  | Some (Inr pq1) \<Rightarrow>
                      (case pq_sort (st_iter (h y)) of
                         None \<Rightarrow> None
                       | Some (Inl e) \<Rightarrow> Some (Inl e)
                       | Some (Inr pq2) \<Rightarrow>
                           Some (Inr (h, SearchTree_init (pq1 @ pq2) Empty))))))"

subsection \<open>The search-tree invariant\<close>

text \<open>
  The invariant of the data model: at every node the values of the left subtree are
  less than the node's value and the values of the right subtree are greater.
\<close>

fun bst :: "'a::linorder tree \<Rightarrow> bool" where
  "bst Empty = True"
| "bst (Node v l r) =
     ((\<forall>a \<in> set_tree l. a < v) \<and> (\<forall>a \<in> set_tree r. v < a) \<and> bst l \<and> bst r)"

text \<open>
  The shape that \<^verbatim>\<open>special_merge\<close> hangs below the rightmost node of \<^verbatim>\<open>x\<close>: a chain of
  nodes without left children, one per value, linked by their \<^verbatim>\<open>right\<close> fields.
\<close>

fun right_spine :: "'a list \<Rightarrow> 'a tree" where
  "right_spine [] = Empty"
| "right_spine (v # vs) = Node v Empty (right_spine vs)"

declare pq_sort_loop.simps [code]

declare general_merge.simps [code]

declare special_merge_loop.simps [code]

section \<open>Properties of the tree operations\<close>

lemma finite_set_tree: "finite (set_tree t)"
  by (induction t) auto

lemma set_tree_insert_tree: "set_tree (insert_tree t v) = insert v (set_tree t)"
  by (induction t) auto

lemma bst_insert_tree: "bst t \<Longrightarrow> bst (insert_tree t v)"
  by (induction t) (auto simp: set_tree_insert_tree)

lemma insert_tree_present: "bst t \<Longrightarrow> v \<in> set_tree t \<Longrightarrow> insert_tree t v = t"
  by (induction t) (auto dest: less_asym)

lemma set_iterate: "set (iterate t) = set_tree t"
  by (induction t) auto

lemma sorted_iterate: "bst t \<Longrightarrow> sorted_wrt (<) (iterate t)"
  by (induction t) (fastforce simp: sorted_wrt_append set_iterate)+

lemma iterate_sorted_list_of_set: "bst t \<Longrightarrow> iterate t = sorted_list_of_set (set_tree t)"
proof -
  assume b: "bst t"
  have "sorted_wrt (<) (iterate t)" using b by (rule sorted_iterate)
  then have "sorted (iterate t) \<and> distinct (iterate t)"
    by (simp add: strict_sorted_iff)
  then show ?thesis
    using set_iterate [of t] by (metis sorted_list_of_set.idem_if_sorted_distinct)
qed

lemma set_tree_empty_iff: "set_tree t = {} \<longleftrightarrow> t = Empty"
  by (cases t) auto

lemma rightmost_Max: "bst t \<Longrightarrow> t \<noteq> Empty \<Longrightarrow> rightmost t = Inr (Max (set_tree t))"
proof (induction t)
  case Empty
  then show ?case by simp
next
  case (Node v l r)
  show ?case
  proof (cases "r = Empty")
    case True
    have "Max (insert v (set_tree l)) = v"
      using Node.prems by (intro Max_eqI) (auto simp: finite_set_tree less_imp_le)
    with True show ?thesis by simp
  next
    case False
    have "Max (set_tree (Node v l r)) = Max (set_tree r)"
    proof (rule Max_eqI)
      show "finite (set_tree (Node v l r))" by (rule finite_set_tree)
      have m: "Max (set_tree r) \<in> set_tree r"
        using False by (simp add: finite_set_tree set_tree_empty_iff)
      then show "Max (set_tree r) \<in> set_tree (Node v l r)" by simp
      fix a assume "a \<in> set_tree (Node v l r)"
      then show "a \<le> Max (set_tree r)"
        using Node.prems m by (auto simp: finite_set_tree intro: less_imp_le order.trans le_less_trans less_trans)
    qed
    with False Node show ?thesis by simp
  qed
qed

lemma leftmost_Min: "bst t \<Longrightarrow> t \<noteq> Empty \<Longrightarrow> leftmost t = Inr (Min (set_tree t))"
proof (induction t)
  case Empty
  then show ?case by simp
next
  case (Node v l r)
  show ?case
  proof (cases "l = Empty")
    case True
    have "Min (insert v (set_tree r)) = v"
      using Node.prems by (intro Min_eqI) (auto simp: finite_set_tree less_imp_le)
    with True show ?thesis by simp
  next
    case False
    have "Min (set_tree (Node v l r)) = Min (set_tree l)"
    proof (rule Min_eqI)
      show "finite (set_tree (Node v l r))" by (rule finite_set_tree)
      have m: "Min (set_tree l) \<in> set_tree l"
        using False by (simp add: finite_set_tree set_tree_empty_iff)
      then show "Min (set_tree l) \<in> set_tree (Node v l r)" by simp
      fix a assume "a \<in> set_tree (Node v l r)"
      then show "Min (set_tree l) \<le> a"
        using Node.prems m by (auto simp: finite_set_tree intro: less_imp_le order.trans le_less_trans less_trans)
    qed
    with False Node show ?thesis by simp
  qed
qed

lemma remove_bst:
  "bst t \<Longrightarrow> \<exists>t'. remove t v = Inr t' \<and> set_tree t' = set_tree t - {v} \<and> bst t'"
proof (induction t arbitrary: v)
  case Empty
  then show ?case by simp
next
  case (Node a l r)
  have bl: "bst l" and br: "bst r"
    and ll: "\<forall>b \<in> set_tree l. b < a" and rr: "\<forall>b \<in> set_tree r. a < b"
    using Node.prems by auto
  consider (lt) "v < a" | (gt) "a < v" | (eq) "v = a"
    using less_linear by blast
  then show ?case
  proof cases
    case lt
    from Node.IH(1) [OF bl, of v] obtain l' where
      l': "remove l v = Inr l'" "set_tree l' = set_tree l - {v}" "bst l'" by blast
    have "set_tree (Node a l' r) = set_tree (Node a l r) - {v}"
      using lt l'(2) rr by auto
    moreover have "bst (Node a l' r)"
      using l' ll rr br by auto
    ultimately show ?thesis using lt l'(1) by auto
  next
    case gt
    from Node.IH(2) [OF br, of v] obtain r' where
      r': "remove r v = Inr r'" "set_tree r' = set_tree r - {v}" "bst r'" by blast
    have "set_tree (Node a l r') = set_tree (Node a l r) - {v}"
      using gt r'(2) ll by auto
    moreover have "bst (Node a l r')"
      using r' ll rr bl by auto
    ultimately show ?thesis using gt r'(1) by auto
  next
    case eq
    have nin: "a \<notin> set_tree l" "a \<notin> set_tree r" using ll rr by auto
    show ?thesis
    proof (cases "l = Empty \<or> r = Empty")
      case True
      then show ?thesis using eq bl br nin by auto
    next
      case False
      then have ne: "l \<noteq> Empty" "r \<noteq> Empty" by auto
      let ?m = "Max (set_tree l)"
      have rm: "rightmost l = Inr ?m" using bl ne(1) by (rule rightmost_Max)
      have min: "?m \<in> set_tree l"
        using ne(1) by (simp add: finite_set_tree set_tree_empty_iff)
      from Node.IH(1) [OF bl, of ?m] obtain l' where
        l': "remove l ?m = Inr l'" "set_tree l' = set_tree l - {?m}" "bst l'" by blast
      have below: "\<forall>b \<in> set_tree l'. b < ?m"
      proof
        fix b assume "b \<in> set_tree l'"
        then have "b \<in> set_tree l" "b \<noteq> ?m" using l'(2) by auto
        then have "b \<le> ?m" "b \<noteq> ?m" by (simp_all add: finite_set_tree)
        then show "b < ?m" by (rule le_neq_trans)
      qed
      have above: "\<forall>b \<in> set_tree r. ?m < b"
        using rr ll min by (meson less_trans)
      have "bst (Node ?m l' r)" using below above l'(3) br by simp
      moreover have "set_tree (Node ?m l' r) = set_tree (Node a l r) - {v}"
        using eq l'(2) min nin by auto
      moreover have "remove (Node a l r) v = Inr (Node ?m l' r)"
        using eq ne rm l'(1) by simp
      ultimately show ?thesis by blast
    qed
  qed
qed

section \<open>Sorting\<close>

lemma delete_min_bst:
  assumes "bst (root q)" and "root q \<noteq> Empty"
  shows "\<exists>q'. delete_min q = Inr (Min (set_tree (root q)), q')
           \<and> set_tree (root q') = set_tree (root q) - {Min (set_tree (root q))}
           \<and> bst (root q')"
proof -
  let ?m = "Min (set_tree (root q))"
  have lm: "min_val q = Inr ?m"
    using assms by (simp add: min_val_def leftmost_Min)
  from remove_bst [OF assms(1), of ?m] obtain t' where
    t': "remove (root q) ?m = Inr t'" "set_tree t' = set_tree (root q) - {?m}" "bst t'"
    by blast
  have "delete_min q = Inr (?m, q\<lparr>root := t'\<rparr>)"
    using lm t'(1) by (simp add: delete_min_def st_remove_def)
  then show ?thesis using t'(2,3) by auto
qed

lemma iterate_Min_Cons:
  assumes "bst t" and "t \<noteq> Empty" and "bst t'"
    and "set_tree t' = set_tree t - {Min (set_tree t)}"
  shows "iterate t = Min (set_tree t) # iterate t'"
proof -
  have "set_tree t \<noteq> {}" using assms(2) by (simp add: set_tree_empty_iff)
  then have "sorted_list_of_set (set_tree t)
      = Min (set_tree t) # sorted_list_of_set (set_tree t - {Min (set_tree t)})"
    using finite_set_tree [of t] by (rule sorted_list_of_set_nonempty [rotated])
  then show ?thesis
    using assms by (simp add: iterate_sorted_list_of_set)
qed

lemma card_delete_min:
  assumes "t \<noteq> Empty" and "set_tree t' = set_tree t - {Min (set_tree t)}"
  shows "card (set_tree t') < card (set_tree t)"
proof -
  have "Min (set_tree t) \<in> set_tree t"
    using assms(1) by (simp add: finite_set_tree set_tree_empty_iff)
  then show ?thesis
    using assms(2) finite_set_tree [of t] card_Diff1_less [of "set_tree t" "Min (set_tree t)"]
    by simp
qed

lemma pq_sort_loop_bst:
  "bst (root pq) \<Longrightarrow> pq_sort_loop pq srt = Some (Inr (srt @ iterate (root pq)))"
proof (induction "card (set_tree (root pq))" arbitrary: pq srt rule: less_induct)
  case less
  show ?case
  proof (cases "root pq = Empty")
    case True
    then show ?thesis by (subst pq_sort_loop.simps) simp
  next
    case False
    from delete_min_bst [OF less.prems False] obtain q' where
      q': "delete_min pq = Inr (Min (set_tree (root pq)), q')"
        "set_tree (root q') = set_tree (root pq) - {Min (set_tree (root pq))}"
        "bst (root q')" by blast
    have "pq_sort_loop q' (srt @ [Min (set_tree (root pq))])
        = Some (Inr ((srt @ [Min (set_tree (root pq))]) @ iterate (root q')))"
      using card_delete_min [OF False q'(2)] q'(3) by (rule less.hyps)
    moreover have "iterate (root pq) = Min (set_tree (root pq)) # iterate (root q')"
      using less.prems False q'(3,2) by (rule iterate_Min_Cons)
    ultimately show ?thesis
      using False q'(1) by (subst pq_sort_loop.simps) simp
  qed
qed

lemma set_tree_foldl_st_insert:
  "set_tree (root (foldl st_insert q xs)) = set_tree (root q) \<union> set xs"
  by (induction xs arbitrary: q) (auto simp: st_insert_def set_tree_insert_tree)

lemma bst_foldl_st_insert:
  "bst (root q) \<Longrightarrow> bst (root (foldl st_insert q xs))"
  by (induction xs arbitrary: q) (auto simp: st_insert_def bst_insert_tree)

lemma set_tree_SearchTree_init:
  "set_tree (root (SearchTree_init xs t)) = set_tree t \<union> set xs"
  by (simp add: SearchTree_init_def set_tree_foldl_st_insert)

lemma bst_SearchTree_init: "bst t \<Longrightarrow> bst (root (SearchTree_init xs t))"
  by (simp add: SearchTree_init_def bst_foldl_st_insert)

lemma st_sort_eq: "st_sort xs = sorted_list_of_set (set xs)"
  by (simp add: st_sort_def st_iter_def iterate_sorted_list_of_set
      bst_SearchTree_init set_tree_SearchTree_init)

lemma pq_sort_eq: "pq_sort xs = Some (Inr (sorted_list_of_set (set xs)))"
  by (simp add: pq_sort_def pq_sort_loop_bst iterate_sorted_list_of_set
      bst_SearchTree_init set_tree_SearchTree_init)


text \<open>The repeated 1 of the input occurs once in the output.\<close>

lemma st_sort_dedup_example:
  "st_sort [3, 1, 4, 1, 5, 9, 2, 6 :: int] = [1, 2, 3, 4, 5, 6, 9]
   \<and> pq_sort [3, 1, 4, 1, 5, 9, 2, 6 :: int] = Some (Inr [1, 2, 3, 4, 5, 6, 9])"
  by code_simp

section \<open>Merging queues\<close>

lemma general_merge_bst:
  assumes "x \<noteq> y"
  shows "bst (root (h x)) \<Longrightarrow> bst (root (h y)) \<Longrightarrow>
    \<exists>h'. general_merge h x y = Some (Inr (h', x))
      \<and> root (h' y) = Empty
      \<and> bst (root (h' x))
      \<and> set_tree (root (h' x)) = set_tree (root (h x)) \<union> set_tree (root (h y))
      \<and> (\<forall>z. z \<noteq> x \<and> z \<noteq> y \<longrightarrow> h' z = h z)"
proof (induction "card (set_tree (root (h y)))" arbitrary: h rule: less_induct)
  case less
  show ?case
  proof (cases "root (h y) = Empty")
    case True
    then show ?thesis using less.prems by (subst general_merge.simps) simp
  next
    case False
    let ?m = "Min (set_tree (root (h y)))"
    from delete_min_bst [OF less.prems(2) False] obtain yq where
      yq: "delete_min (h y) = Inr (?m, yq)"
        "set_tree (root yq) = set_tree (root (h y)) - {?m}"
        "bst (root yq)" by blast
    let ?h1 = "h(y := yq)"
    let ?h2 = "?h1(x := st_insert (?h1 x) ?m)"
    have min: "?m \<in> set_tree (root (h y))"
      using False by (simp add: finite_set_tree set_tree_empty_iff)
    have y2: "?h2 y = yq" and x2: "?h2 x = st_insert (h x) ?m"
      using assms by simp_all
    have "card (set_tree (root (?h2 y))) < card (set_tree (root (h y)))"
      using card_delete_min [OF False yq(2)] y2 by simp
    moreover have "bst (root (?h2 x))"
      using less.prems(1) x2 by (simp add: st_insert_def bst_insert_tree)
    moreover have "bst (root (?h2 y))" using yq(3) y2 by simp
    ultimately obtain h' where
      h': "general_merge ?h2 x y = Some (Inr (h', x))"
        "root (h' y) = Empty" "bst (root (h' x))"
        "set_tree (root (h' x)) = set_tree (root (?h2 x)) \<union> set_tree (root (?h2 y))"
        "\<forall>z. z \<noteq> x \<and> z \<noteq> y \<longrightarrow> h' z = ?h2 z"
      using less.hyps [of ?h2] by blast
    have "general_merge h x y = Some (Inr (h', x))"
      using False yq(1) h'(1) by (subst general_merge.simps) simp
    moreover have "set_tree (root (h' x)) = set_tree (root (h x)) \<union> set_tree (root (h y))"
      using h'(4) x2 y2 yq(2) min by (auto simp: st_insert_def set_tree_insert_tree)
    moreover have "\<forall>z. z \<noteq> x \<and> z \<noteq> y \<longrightarrow> h' z = h z"
      using h'(5) by simp
    ultimately show ?thesis using h'(2,3) by blast
  qed
qed

lemma merge_loop_set:
  "merge_loop pq1 pq2 i j merged = (i', j', merged') \<Longrightarrow>
   set (merged' @ drop i' pq1 @ drop j' pq2) = set (merged @ drop i pq1 @ drop j pq2)"
proof (induction pq1 pq2 i j merged rule: merge_loop.induct)
  case (1 pq1 pq2 i j merged)
  show ?case
  proof (cases "i < length pq1 \<and> j < length pq2")
    case False
    then show ?thesis using "1.prems" by auto
  next
    case True
    then have di: "drop i pq1 = pq1 ! i # drop (Suc i) pq1"
      and dj: "drop j pq2 = pq2 ! j # drop (Suc j) pq2"
      by (simp_all add: Cons_nth_drop_Suc)
    show ?thesis
    proof (cases "pq1 ! i < pq2 ! j")
      case lt: True
      then have "merge_loop pq1 pq2 (i + 1) j (merged @ [pq1 ! i]) = (i', j', merged')"
        using True "1.prems" by simp
      from "1.IH"(1) [OF True lt this] show ?thesis using di by auto
    next
      case ge: False
      then have "merge_loop pq1 pq2 i (j + 1) (merged @ [pq2 ! j]) = (i', j', merged')"
        using True "1.prems" by simp
      from "1.IH"(2) [OF True ge this] show ?thesis using dj by auto
    qed
  qed
qed

lemma attach_right_Node:
  "t \<noteq> Empty \<Longrightarrow> \<exists>t'. attach_right t n = Inr t' \<and> t' \<noteq> Empty
      \<and> iterate t' = iterate t @ iterate n
      \<and> set_tree t' = set_tree t \<union> set_tree n"
proof (induction t)
  case Empty
  then show ?case by simp
next
  case (Node v l r)
  show ?case
  proof (cases "r = Empty")
    case True
    then show ?thesis by simp
  next
    case False
    from Node.IH(2) [OF False] obtain r' where
      r': "attach_right r n = Inr r'" "iterate r' = iterate r @ iterate n"
      "set_tree r' = set_tree r \<union> set_tree n" by (elim exE conjE)
    have "attach_right (Node v l r) n = Inr (Node v l r')"
      using False r'(1) by simp
    moreover have "iterate (Node v l r') = iterate (Node v l r) @ iterate n"
      using r'(2) by simp
    moreover have "set_tree (Node v l r') = set_tree (Node v l r) \<union> set_tree n"
      using r'(3) by auto
    ultimately show ?thesis by blast
  qed
qed

lemma attach_right_Empty: "t \<noteq> Empty \<Longrightarrow> attach_right t Empty = Inr t"
  by (induction t) auto

lemma attach_right_bst:
  "attach_right t n = Inr t' \<Longrightarrow> bst t \<Longrightarrow> bst n \<Longrightarrow>
   \<forall>a \<in> set_tree t. \<forall>b \<in> set_tree n. a < b \<Longrightarrow> bst t'"
proof (induction t arbitrary: t')
  case Empty
  then show ?case by simp
next
  case (Node v l r)
  have bl: "bst l" and br: "bst r"
    and ll: "\<forall>b \<in> set_tree l. b < v" and rr: "\<forall>b \<in> set_tree r. v < b"
    using Node.prems(2) by auto
  have vn: "\<forall>b \<in> set_tree n. v < b" using Node.prems(4) by simp
  show ?case
  proof (cases "r = Empty")
    case True
    then have "t' = Node v l n" using Node.prems(1) by simp
    then show ?thesis using bl ll vn Node.prems(3) by simp
  next
    case False
    from attach_right_Node [OF False, of n] obtain r' where
      r': "attach_right r n = Inr r'" "set_tree r' = set_tree r \<union> set_tree n"
      by (elim exE conjE)
    have rn: "\<forall>a \<in> set_tree r. \<forall>b \<in> set_tree n. a < b" using Node.prems(4) by simp
    have "bst r'" using r'(1) br Node.prems(3) rn by (rule Node.IH(2))
    moreover have "t' = Node v l r'" using False r'(1) Node.prems(1) by simp
    moreover have "\<forall>b \<in> set_tree r'. v < b" using r'(2) rr vn by auto
    ultimately show ?thesis using bl ll by simp
  qed
qed

lemma attach_right_twice:
  "attach_right t (Node m Empty Empty) = Inr t1 \<Longrightarrow> attach_right t1 s = Inr t2 \<Longrightarrow>
   attach_right t (Node m Empty s) = Inr t2"
proof (induction t arbitrary: t1 t2)
  case Empty
  then show ?case by simp
next
  case (Node v l r)
  show ?case
  proof (cases "r = Empty")
    case True
    then show ?thesis using Node.prems by auto
  next
    case False
    from attach_right_Node [OF False, of "Node m Empty Empty"] obtain r1 where
      r1: "attach_right r (Node m Empty Empty) = Inr r1" "r1 \<noteq> Empty" by (elim exE conjE)
    then have t1: "t1 = Node v l r1" using False Node.prems(1) by simp
    from attach_right_Node [OF r1(2), of s] obtain r2 where
      r2: "attach_right r1 s = Inr r2" by (elim exE conjE)
    then have t2: "t2 = Node v l r2" using r1(2) t1 Node.prems(2) by simp
    from Node.IH(2) [OF r1(1) r2] show ?thesis using False t2 by simp
  qed
qed

lemma special_merge_loop_bst:
  assumes "x \<noteq> y"
  shows "root (h x) \<noteq> Empty \<Longrightarrow> bst (root (h x)) \<Longrightarrow> bst (root (h y)) \<Longrightarrow>
    \<forall>a \<in> set_tree (root (h x)). \<forall>b \<in> set_tree (root (h y)). a < b \<Longrightarrow>
    \<exists>h'. special_merge_loop h x y = Some (Inr (h', x))
      \<and> root (h' y) = Empty
      \<and> bst (root (h' x))
      \<and> iterate (root (h' x)) = iterate (root (h x)) @ iterate (root (h y))
      \<and> attach_right (root (h x)) (right_spine (iterate (root (h y)))) = Inr (root (h' x))
      \<and> (\<forall>z. z \<noteq> x \<and> z \<noteq> y \<longrightarrow> h' z = h z)"
proof (induction "card (set_tree (root (h y)))" arbitrary: h rule: less_induct)
  case less
  show ?case
  proof (cases "root (h y) = Empty")
    case True
    have "attach_right (root (h x)) Empty = Inr (root (h x))"
      using less.prems(1) by (rule attach_right_Empty)
    then show ?thesis using True less.prems by (subst special_merge_loop.simps) simp
  next
    case False
    let ?m = "Min (set_tree (root (h y)))"
    from delete_min_bst [OF less.prems(3) False] obtain yq where
      yq: "delete_min (h y) = Inr (?m, yq)"
        "set_tree (root yq) = set_tree (root (h y)) - {?m}"
        "bst (root yq)" by (elim exE conjE)
    have min: "?m \<in> set_tree (root (h y))"
      using False by (simp add: finite_set_tree set_tree_empty_iff)
    have it: "iterate (root (h y)) = ?m # iterate (root yq)"
      using less.prems(3) False yq(3,2) by (rule iterate_Min_Cons)
    have above: "\<forall>b \<in> set_tree (root yq). ?m < b"
    proof
      fix b assume "b \<in> set_tree (root yq)"
      then have "?m \<le> b" "b \<noteq> ?m" using yq(2) by (simp_all add: finite_set_tree)
      then show "?m < b" by simp
    qed
    let ?h1 = "h(y := yq)"
    from attach_right_Node [OF less.prems(1), of "Node ?m Empty Empty"] obtain t where
      t0: "attach_right (root (h x)) (Node ?m Empty Empty) = Inr t" "t \<noteq> Empty"
        "iterate t = iterate (root (h x)) @ iterate (Node ?m Empty Empty)"
        "set_tree t = set_tree (root (h x)) \<union> set_tree (Node ?m Empty Empty)"
      by (elim exE conjE)
    have t: "attach_right (root (h x)) (Node ?m Empty Empty) = Inr t" "t \<noteq> Empty"
        "iterate t = iterate (root (h x)) @ [?m]"
        "set_tree t = insert ?m (set_tree (root (h x)))"
      using t0 by simp_all
    have bt: "bst t"
      using t(1) less.prems(2) by (rule attach_right_bst) (use less.prems(4) min in simp_all)
    let ?h2 = "?h1(x := (?h1 x)\<lparr>root := t\<rparr>)"
    have y2: "?h2 y = yq" and x2: "root (?h2 x) = t"
      using assms by simp_all
    have c1: "card (set_tree (root (?h2 y))) < card (set_tree (root (h y)))"
      using card_delete_min [OF False yq(2)] y2 by simp
    have c2: "root (?h2 x) \<noteq> Empty" using t(2) x2 by simp
    have c3: "bst (root (?h2 x))" using bt x2 by simp
    have c4: "bst (root (?h2 y))" using yq(3) y2 by simp
    have c5: "\<forall>a \<in> set_tree (root (?h2 x)). \<forall>b \<in> set_tree (root (?h2 y)). a < b"
      unfolding x2 y2 using t(4) above less.prems(4) yq(2) by auto
    from less.hyps [OF c1 c2 c3 c4 c5] obtain h' where
      h': "special_merge_loop ?h2 x y = Some (Inr (h', x))"
        "root (h' y) = Empty" "bst (root (h' x))"
        "iterate (root (h' x)) = iterate (root (?h2 x)) @ iterate (root (?h2 y))"
        "attach_right (root (?h2 x)) (right_spine (iterate (root (?h2 y)))) = Inr (root (h' x))"
        "\<forall>z. z \<noteq> x \<and> z \<noteq> y \<longrightarrow> h' z = ?h2 z"
      by (elim exE conjE)
    have hx: "(h(y := yq)) x = h x" using assms by simp
    have "special_merge_loop h x y = Some (Inr (h', x))"
      using False yq(1) t(1) h'(1) assms by (subst special_merge_loop.simps) simp
    moreover have "iterate (root (h' x)) = iterate (root (h x)) @ iterate (root (h y))"
      using h'(4) t(3) it unfolding x2 y2 by simp
    moreover have "attach_right (root (h x)) (right_spine (iterate (root (h y)))) = Inr (root (h' x))"
      using attach_right_twice [OF t(1)] h'(5) it unfolding x2 y2 by simp
    moreover have "\<forall>z. z \<noteq> x \<and> z \<noteq> y \<longrightarrow> h' z = h z"
      using h'(6) by simp
    ultimately show ?thesis using h'(2,3) by blast
  qed
qed

lemma Max_less_Min_all:
  assumes "t \<noteq> Empty" and "u \<noteq> Empty"
    and "Max (set_tree t) < Min (set_tree u)"
  shows "\<forall>a \<in> set_tree t. \<forall>b \<in> set_tree u. a < b"
proof (intro ballI)
  fix a b assume "a \<in> set_tree t" and "b \<in> set_tree u"
  then have "a \<le> Max (set_tree t)" and "Min (set_tree u) \<le> b"
    by (simp_all add: finite_set_tree)
  then show "a < b" using assms(3) by simp
qed

lemma rightmost_Node: "t \<noteq> Empty \<Longrightarrow> \<exists>a. rightmost t = Inr a"
  by (induction t) auto

section \<open>A queue that is not a search tree\<close>

text \<open>
  The constructor accepts any tree as its \<^verbatim>\<open>tree\<close> argument. In the tree below the
  leftmost value 2 is greater than the root, so \<^verbatim>\<open>remove\<close> looks for it on the right,
  \<^verbatim>\<open>delete_min\<close> leaves the queue as it was, and draining the queue never ends. The
  statements about draining and merging below are therefore about queues whose tree
  satisfies the invariant \<open>bst\<close>, as every queue built by insertion does.
\<close>

lemma delete_min_not_bst:
  "delete_min \<lparr>root = Node (1::int) (Node 2 Empty Empty) Empty\<rparr>
     = Inr (2, \<lparr>root = Node 1 (Node 2 Empty Empty) Empty\<rparr>)"
  by (simp add: delete_min_def min_val_def st_remove_def)

lemma pq_sort_loop_diverges:
  "pq_sort_loop \<lparr>root = Node (1::int) (Node 2 Empty Empty) Empty\<rparr> srt = None"
proof -
  let ?q = "\<lparr>root = Node (1::int) (Node 2 Empty Empty) Empty\<rparr>"
  have "pq \<noteq> ?q" if "pq_sort_loop pq srt = Some res" for pq srt res
  proof (rule pq_sort_loop.raw_induct [where P = "\<lambda>pq srt res. pq \<noteq> ?q", OF _ that])
    fix f :: "int PriorityQueue \<Rightarrow> int list \<Rightarrow> (error + int list) option"
    fix pq srt res
    assume ih: "\<And>pq srt res. f pq srt = Some res \<Longrightarrow> pq \<noteq> ?q"
      and step: "(if root pq \<noteq> Empty then
          (case delete_min pq of
             Inl e \<Rightarrow> Some (Inl e)
           | Inr (m, pq') \<Rightarrow> f pq' (srt @ [m]))
         else Some (Inr srt)) = Some res"
    show "pq \<noteq> ?q"
    proof
      assume "pq = ?q"
      then have "f ?q (srt @ [2]) = Some res"
        using step by (simp add: delete_min_not_bst)
      then have "?q \<noteq> ?q" by (rule ih)
      then show False by simp
    qed
  qed
  then show ?thesis by (cases "pq_sort_loop ?q srt") auto
qed

section \<open>The claims of the specification\<close>

subsection \<open>Sorting and the tree operations\<close>

text \<open>
  Claim C1. For every input list over any linearly ordered value type, \<^verbatim>\<open>st_sort\<close> and
  \<^verbatim>\<open>pq_sort\<close> both return the strictly ascending list of the distinct values of the
  input (\<open>sorted_list_of_set\<close> of the set of its elements: strictly ascending, with the
  elements of the input), and \<^verbatim>\<open>pq_sort\<close> does return; in particular both return
  \<open>0, 1, \<dots>, n - 1\<close> on every permutation \<open>p\<close> of these integers.
\<close>

theorem sort_ascending_distinct:
  fixes xs :: "'a::linorder list" and p :: "int list"
  shows "st_sort xs = sorted_list_of_set (set xs)
   \<and> pq_sort xs = Some (Inr (sorted_list_of_set (set xs)))
   \<and> sorted_wrt (<) (st_sort xs) \<and> set (st_sort xs) = set xs
   \<and> (mset p = mset [0..int n - 1] \<longrightarrow>
        st_sort p = [0..int n - 1] \<and> pq_sort p = Some (Inr [0..int n - 1]))"
proof -
  have "sorted_list_of_set (set p) = [0..int n - 1]" if "mset p = mset [0..int n - 1]"
  proof -
    have "set p = {0..int n - 1}" using that by (metis set_mset_mset set_upto)
    then show ?thesis
      using sorted_list_of_set.idem_if_sorted_distinct [of "[0..int n - 1]"] by simp
  qed
  moreover have "sorted_wrt (<) (sorted_list_of_set (set xs))"
    by (simp add: strict_sorted_iff)
  ultimately show ?thesis by (simp add: st_sort_eq pq_sort_eq)
qed

text \<open>
  A list of natural numbers with a repeated element, and the permutation
  \<open>3, 1, 4, 0, 2\<close> of \<open>0, \<dots>, 4\<close>.
\<close>

theorem sort_ascending_distinct_witness:
  "st_sort [3, 1, 4, 1, 5 :: nat] = [1, 3, 4, 5]
   \<and> pq_sort [3, 1, 4, 1, 5 :: nat] = Some (Inr [1, 3, 4, 5])
   \<and> mset [3, 1, 4, 0, 2 :: int] = mset [0..int 5 - 1]
   \<and> st_sort [3, 1, 4, 0, 2 :: int] = [0, 1, 2, 3, 4]
   \<and> pq_sort [3, 1, 4, 0, 2 :: int] = Some (Inr [0, 1, 2, 3, 4])"
proof -
  have u: "[0..int 5 - 1] = [0, 1, 2, 3, 4]" by (simp add: upto.simps)
  have h: "mset [3, 1, 4, 0, 2 :: int] = mset [0..int 5 - 1]"
    unfolding u by (simp add: add_mset_commute)
  have "set [3, 1, 4, 1, 5 :: nat] = set [1, 3, 4, 5]" by auto
  then have s: "sorted_list_of_set (set [3, 1, 4, 1, 5 :: nat]) = [1, 3, 4, 5]"
    using sorted_list_of_set.idem_if_sorted_distinct [of "[1, 3, 4, 5 :: nat]"] by simp
  note c = sort_ascending_distinct [of "[3, 1, 4, 1, 5 :: nat]" "[3, 1, 4, 0, 2]" 5]
  have g: "st_sort [3, 1, 4, 1, 5 :: nat] = [1, 3, 4, 5]
      \<and> pq_sort [3, 1, 4, 1, 5 :: nat] = Some (Inr [1, 3, 4, 5])"
    using c unfolding s by (intro conjI) (elim conjE, assumption)+
  have q: "st_sort [3, 1, 4, 0, 2 :: int] = [0, 1, 2, 3, 4]
      \<and> pq_sort [3, 1, 4, 0, 2 :: int] = Some (Inr [0, 1, 2, 3, 4])"
    using c h unfolding u by blast
  show ?thesis using g h q by (intro conjI) (elim conjE, assumption)+
qed

text \<open>
  Claim C2. The empty tree satisfies the search-tree invariant, a tree that satisfies it
  yields no value twice, and for every such tree and every value \<open>v\<close> both
  \<^verbatim>\<open>insert(tree, v)\<close> and \<^verbatim>\<open>remove(tree, v)\<close> return a tree that satisfies it again
  (\<^verbatim>\<open>remove\<close> does not raise).
\<close>

theorem bst_preserved:
  "bst Empty
   \<and> (bst t \<longrightarrow>
        distinct (iterate t)
        \<and> bst (insert_tree t v)
        \<and> (\<exists>t'. remove t v = Inr t' \<and> bst t'))"
proof -
  have "distinct (iterate t)" if "bst t"
    using sorted_iterate [OF that] by (simp add: strict_sorted_iff)
  moreover have "\<exists>t'. remove t v = Inr t' \<and> bst t'" if "bst t"
    using remove_bst [OF that, of v] by (elim exE conjE) (rule exI, rule conjI)
  ultimately show ?thesis by (simp add: bst_insert_tree)
qed

text \<open>Inserting 4 into, and removing the root 5 from, a search tree of five values.\<close>

theorem bst_preserved_witness:
  "bst (Node (5::int) (Node 2 (Node 1 Empty Empty) (Node 3 Empty Empty)) (Node 8 Empty Empty))
   \<and> bst (insert_tree (Node (5::int) (Node 2 (Node 1 Empty Empty) (Node 3 Empty Empty)) (Node 8 Empty Empty)) 4)
   \<and> (\<exists>t'. remove (Node (5::int) (Node 2 (Node 1 Empty Empty) (Node 3 Empty Empty)) (Node 8 Empty Empty)) 5 = Inr t' \<and> bst t')"
proof -
  let ?t = "Node (5::int) (Node 2 (Node 1 Empty Empty) (Node 3 Empty Empty)) (Node 8 Empty Empty)"
  have h: "bst ?t" by simp
  show ?thesis
    using h bst_preserved [of ?t 4] bst_preserved [of ?t 5] by blast
qed



subsection \<open>Merging\<close>

text \<open>
  Claim C4. For two distinct queue objects \<^verbatim>\<open>x\<close> and \<^verbatim>\<open>y\<close> holding search trees,
  \<^verbatim>\<open>general_merge(x, y)\<close> returns, and what it returns is the reference \<^verbatim>\<open>x\<close>;
  afterwards iterating \<^verbatim>\<open>x\<close> yields the ascending list of the union of the values that
  \<^verbatim>\<open>x\<close> and \<^verbatim>\<open>y\<close> held before (a value held by both occurs once), and \<^verbatim>\<open>y\<close> is empty.
\<close>

theorem general_merge_union:
  assumes "x \<noteq> y" and "bst (root (h x))" and "bst (root (h y))"
  shows "\<exists>h'. general_merge h x y = Some (Inr (h', x))
      \<and> st_iter (h' x) = sorted_list_of_set (set (st_iter (h x)) \<union> set (st_iter (h y)))
      \<and> root (h' y) = Empty \<and> \<not> st_bool (h' y) \<and> st_iter (h' y) = []"
proof -
  from general_merge_bst [OF assms] obtain h' where
    h': "general_merge h x y = Some (Inr (h', x))" "root (h' y) = Empty" "bst (root (h' x))"
      "set_tree (root (h' x)) = set_tree (root (h x)) \<union> set_tree (root (h y))"
    by (elim exE conjE)
  have "st_iter (h' x) = sorted_list_of_set (set (st_iter (h x)) \<union> set (st_iter (h y)))"
    using h'(3,4) by (simp add: st_iter_def iterate_sorted_list_of_set set_iterate)
  moreover have "\<not> st_bool (h' y)" "st_iter (h' y) = []"
    using h'(2) by (simp_all add: st_bool_def st_iter_def)
  ultimately show ?thesis using h'(1,2) by (intro exI [of _ h']) simp
qed

text \<open>The queues of the test: \<^verbatim>\<open>x\<close> built from \<open>0, \<dots>, 4\<close> and \<^verbatim>\<open>y\<close> from \<open>5, \<dots>, 9\<close>.\<close>

theorem general_merge_union_witness:
  "(0::nat) \<noteq> 1
   \<and> bst (root (SearchTree_init [0, 1, 2, 3, 4 :: int] Empty))
   \<and> bst (root (SearchTree_init [5, 6, 7, 8, 9 :: int] Empty))
   \<and> (\<exists>h'. general_merge
          ((\<lambda>r::nat. \<lparr>root = Empty\<rparr>)
             (0 := SearchTree_init [0, 1, 2, 3, 4 :: int] Empty,
              1 := SearchTree_init [5, 6, 7, 8, 9] Empty)) 0 1 = Some (Inr (h', 0))
        \<and> st_iter (h' 0) = [0, 1, 2, 3, 4, 5, 6, 7, 8, 9]
        \<and> root (h' 1) = Empty)"
proof -
  let ?x = "SearchTree_init [0, 1, 2, 3, 4 :: int] Empty"
  let ?y = "SearchTree_init [5, 6, 7, 8, 9 :: int] Empty"
  let ?h = "(\<lambda>r::nat. \<lparr>root = Empty\<rparr>)(0 := ?x, 1 := ?y)"
  have b0: "bst (root (?h 0))" and b1: "bst (root (?h 1))"
    by (simp_all add: SearchTree_init_def st_insert_def)
  have ix: "st_iter (?h 0) = [0, 1, 2, 3, 4]" and iy: "st_iter (?h 1) = [5, 6, 7, 8, 9]"
    by (simp_all add: SearchTree_init_def st_insert_def st_iter_def)
  have "set [0, 1, 2, 3, 4 :: int] \<union> set [5, 6, 7, 8, 9] = set [0, 1, 2, 3, 4, 5, 6, 7, 8, 9]"
    by auto
  then have u: "sorted_list_of_set (set [0, 1, 2, 3, 4 :: int] \<union> set [5, 6, 7, 8, 9])
      = [0, 1, 2, 3, 4, 5, 6, 7, 8, 9]"
    using sorted_list_of_set.idem_if_sorted_distinct [of "[0, 1, 2, 3, 4, 5, 6, 7, 8, 9 :: int]"]
    by simp
  have ne: "(0::nat) \<noteq> 1" by simp
  from general_merge_union [OF ne b0 b1] obtain h' where
    "general_merge ?h 0 1 = Some (Inr (h', 0))"
    "st_iter (h' 0) = sorted_list_of_set (set (st_iter (?h 0)) \<union> set (st_iter (?h 1)))"
    "root (h' 1) = Empty"
    by (elim exE conjE)
  then have "general_merge ?h 0 1 = Some (Inr (h', 0))
      \<and> st_iter (h' 0) = [0, 1, 2, 3, 4, 5, 6, 7, 8, 9] \<and> root (h' 1) = Empty"
    unfolding ix iy u by simp
  then have "\<exists>h'. general_merge ?h 0 1 = Some (Inr (h', 0))
      \<and> st_iter (h' 0) = [0, 1, 2, 3, 4, 5, 6, 7, 8, 9] \<and> root (h' 1) = Empty"
    by (intro exI [of _ h'])
  then show ?thesis using b0 b1 by simp
qed

text \<open>
  Claim C5. For two distinct, non-empty queue objects holding search trees with the
  maximum of \<^verbatim>\<open>x\<close> less than the minimum of \<^verbatim>\<open>y\<close>, \<^verbatim>\<open>special_merge(x, y)\<close> returns the
  reference \<^verbatim>\<open>x\<close>; afterwards iterating \<^verbatim>\<open>x\<close> yields the former values of \<^verbatim>\<open>x\<close> followed
  by the former values of \<^verbatim>\<open>y\<close>, which is the ascending list of their union; the tree
  of \<^verbatim>\<open>x\<close> is its former tree with the values of \<^verbatim>\<open>y\<close> chained below its rightmost node;
  and \<^verbatim>\<open>y\<close> is empty.
\<close>

theorem special_merge_appends:
  assumes "x \<noteq> y"
    and "root (h x) \<noteq> Empty" and "root (h y) \<noteq> Empty"
    and "bst (root (h x))" and "bst (root (h y))"
    and "Max (set_tree (root (h x))) < Min (set_tree (root (h y)))"
  shows "\<exists>h'. special_merge h x y = Some (Inr (h', x))
      \<and> st_iter (h' x) = st_iter (h x) @ st_iter (h y)
      \<and> st_iter (h' x) = sorted_list_of_set (set (st_iter (h x)) \<union> set (st_iter (h y)))
      \<and> attach_right (root (h x)) (right_spine (st_iter (h y))) = Inr (root (h' x))
      \<and> root (h' y) = Empty \<and> \<not> st_bool (h' y) \<and> st_iter (h' y) = []"
proof -
  have lt: "\<forall>a \<in> set_tree (root (h x)). \<forall>b \<in> set_tree (root (h y)). a < b"
    using assms(2,3,6) by (rule Max_less_Min_all)
  from special_merge_loop_bst [OF assms(1,2,4,5) lt] obtain h' where
    h': "special_merge_loop h x y = Some (Inr (h', x))" "root (h' y) = Empty"
      "bst (root (h' x))"
      "iterate (root (h' x)) = iterate (root (h x)) @ iterate (root (h y))"
      "attach_right (root (h x)) (right_spine (iterate (root (h y)))) = Inr (root (h' x))"
    by (elim exE conjE)
  have "rightmost (root (h x)) = Inr (Max (set_tree (root (h x))))"
    using assms(4,2) by (rule rightmost_Max)
  moreover have "min_val (h y) = Inr (Min (set_tree (root (h y))))"
    using assms(5,3) by (simp add: min_val_def leftmost_Min)
  ultimately have sm: "special_merge h x y = Some (Inr (h', x))"
    using assms(6) h'(1) by (simp add: special_merge_def)
  have "set (iterate (root (h' x))) = set (st_iter (h x)) \<union> set (st_iter (h y))"
    unfolding h'(4) by (simp add: st_iter_def)
  then have srt: "st_iter (h' x) = sorted_list_of_set (set (st_iter (h x)) \<union> set (st_iter (h y)))"
    using iterate_sorted_list_of_set [OF h'(3)] by (simp add: st_iter_def set_iterate)
  have "\<not> st_bool (h' y)" "st_iter (h' y) = []"
    using h'(2) by (simp_all add: st_bool_def st_iter_def)
  then show ?thesis
    using sm srt h'(2,4,5) by (intro exI [of _ h']) (simp add: st_iter_def)
qed

text \<open>The queues of the test, merged by \<^verbatim>\<open>special_merge\<close>.\<close>

theorem special_merge_appends_witness:
  "(0::nat) \<noteq> 1
   \<and> root (SearchTree_init [0, 1, 2, 3, 4 :: int] Empty) \<noteq> Empty
   \<and> root (SearchTree_init [5, 6, 7, 8, 9 :: int] Empty) \<noteq> Empty
   \<and> bst (root (SearchTree_init [0, 1, 2, 3, 4 :: int] Empty))
   \<and> bst (root (SearchTree_init [5, 6, 7, 8, 9 :: int] Empty))
   \<and> Max (set_tree (root (SearchTree_init [0, 1, 2, 3, 4 :: int] Empty)))
       < Min (set_tree (root (SearchTree_init [5, 6, 7, 8, 9 :: int] Empty)))
   \<and> (\<exists>h'. special_merge
          ((\<lambda>r::nat. \<lparr>root = Empty\<rparr>)
             (0 := SearchTree_init [0, 1, 2, 3, 4 :: int] Empty,
              1 := SearchTree_init [5, 6, 7, 8, 9] Empty)) 0 1 = Some (Inr (h', 0))
        \<and> st_iter (h' 0) = [0, 1, 2, 3, 4, 5, 6, 7, 8, 9]
        \<and> root (h' 1) = Empty)"
proof -
  let ?x = "SearchTree_init [0, 1, 2, 3, 4 :: int] Empty"
  let ?y = "SearchTree_init [5, 6, 7, 8, 9 :: int] Empty"
  let ?h = "(\<lambda>r::nat. \<lparr>root = Empty\<rparr>)(0 := ?x, 1 := ?y)"
  have n0: "root (?h 0) \<noteq> Empty" and n1: "root (?h 1) \<noteq> Empty"
    by (simp_all add: SearchTree_init_def st_insert_def)
  have b0: "bst (root (?h 0))" and b1: "bst (root (?h 1))"
    by (simp_all add: SearchTree_init_def st_insert_def)
  have m: "Max (set_tree (root (?h 0))) < Min (set_tree (root (?h 1)))"
    by (simp add: SearchTree_init_def st_insert_def)
  have ix: "st_iter (?h 0) = [0, 1, 2, 3, 4]" and iy: "st_iter (?h 1) = [5, 6, 7, 8, 9]"
    by (simp_all add: SearchTree_init_def st_insert_def st_iter_def)
  have ne: "(0::nat) \<noteq> 1" by simp
  from special_merge_appends [OF ne n0 n1 b0 b1 m] obtain h' where
    "special_merge ?h 0 1 = Some (Inr (h', 0))"
    "st_iter (h' 0) = st_iter (?h 0) @ st_iter (?h 1)"
    "root (h' 1) = Empty"
    by (elim exE conjE)
  then have "special_merge ?h 0 1 = Some (Inr (h', 0))
      \<and> st_iter (h' 0) = [0, 1, 2, 3, 4, 5, 6, 7, 8, 9] \<and> root (h' 1) = Empty"
    unfolding ix iy by simp
  then have "\<exists>h'. special_merge ?h 0 1 = Some (Inr (h', 0))
      \<and> st_iter (h' 0) = [0, 1, 2, 3, 4, 5, 6, 7, 8, 9] \<and> root (h' 1) = Empty"
    by (intro exI [of _ h'])
  then show ?thesis using n0 n1 b0 b1 m by simp
qed

text \<open>
  Claim C6. For any two queue objects, \<^verbatim>\<open>general_merge_persistent(x, y)\<close> returns a
  queue it has built, whose iteration yields the ascending list of the distinct values
  of \<^verbatim>\<open>x\<close> and \<^verbatim>\<open>y\<close> together, and leaves the store as it found it: \<^verbatim>\<open>x\<close>, \<^verbatim>\<open>y\<close> and
  every other object still hold the trees, and so yield the values, they did before.
\<close>

theorem general_merge_persistent_frame:
  "\<exists>h' q. general_merge_persistent h x y = Some (Inr (h', q))
     \<and> st_iter q = sorted_list_of_set (set (st_iter (h x)) \<union> set (st_iter (h y)))
     \<and> h' = h \<and> st_iter (h' x) = st_iter (h x) \<and> st_iter (h' y) = st_iter (h y)"
proof -
  let ?p1 = "sorted_list_of_set (set (st_iter (h x)))"
  let ?p2 = "sorted_list_of_set (set (st_iter (h y)))"
  obtain i j merged where ml: "merge_loop ?p1 ?p2 0 0 [] = (i, j, merged)"
    by (metis prod_cases3)
  let ?q = "SearchTree_init (merged @ drop i ?p1 @ drop j ?p2) Empty"
  have "set (merged @ drop i ?p1 @ drop j ?p2) = set (st_iter (h x)) \<union> set (st_iter (h y))"
    using merge_loop_set [OF ml] by simp
  then have "st_iter ?q = sorted_list_of_set (set (st_iter (h x)) \<union> set (st_iter (h y)))"
    by (simp add: st_iter_def iterate_sorted_list_of_set bst_SearchTree_init
        set_tree_SearchTree_init)
  moreover have "general_merge_persistent h x y = Some (Inr (h, ?q))"
    using ml by (simp add: general_merge_persistent_def pq_sort_eq)
  ultimately show ?thesis by (intro exI [of _ h] exI [of _ ?q]) simp
qed

text \<open>The queues of the test, merged by \<^verbatim>\<open>general_merge_persistent\<close>.\<close>

theorem general_merge_persistent_frame_witness:
  "\<exists>q. general_merge_persistent
          ((\<lambda>r::nat. \<lparr>root = Empty\<rparr>)
             (0 := SearchTree_init [0, 1, 2, 3, 4 :: int] Empty,
              1 := SearchTree_init [5, 6, 7, 8, 9] Empty)) 0 1
        = Some (Inr ((\<lambda>r::nat. \<lparr>root = Empty\<rparr>)
             (0 := SearchTree_init [0, 1, 2, 3, 4 :: int] Empty,
              1 := SearchTree_init [5, 6, 7, 8, 9] Empty), q))
      \<and> st_iter q = [0, 1, 2, 3, 4, 5, 6, 7, 8, 9]"
proof -
  let ?x = "SearchTree_init [0, 1, 2, 3, 4 :: int] Empty"
  let ?y = "SearchTree_init [5, 6, 7, 8, 9 :: int] Empty"
  let ?h = "(\<lambda>r::nat. \<lparr>root = Empty\<rparr>)(0 := ?x, 1 := ?y)"
  have ix: "st_iter (?h 0) = [0, 1, 2, 3, 4]" and iy: "st_iter (?h 1) = [5, 6, 7, 8, 9]"
    by (simp_all add: SearchTree_init_def st_insert_def st_iter_def)
  have "set [0, 1, 2, 3, 4 :: int] \<union> set [5, 6, 7, 8, 9] = set [0, 1, 2, 3, 4, 5, 6, 7, 8, 9]"
    by auto
  then have u: "sorted_list_of_set (set [0, 1, 2, 3, 4 :: int] \<union> set [5, 6, 7, 8, 9])
      = [0, 1, 2, 3, 4, 5, 6, 7, 8, 9]"
    using sorted_list_of_set.idem_if_sorted_distinct [of "[0, 1, 2, 3, 4, 5, 6, 7, 8, 9 :: int]"]
    by simp
  from general_merge_persistent_frame [of ?h 0 1] obtain h' q where
    q0: "general_merge_persistent ?h 0 1 = Some (Inr (h', q))"
      "st_iter q = sorted_list_of_set (set (st_iter (?h 0)) \<union> set (st_iter (?h 1)))"
      "h' = ?h"
    by (elim exE conjE)
  have q: "general_merge_persistent ?h 0 1 = Some (Inr (?h, q))"
      "st_iter q = sorted_list_of_set (set (st_iter (?h 0)) \<union> set (st_iter (?h 1)))"
    using q0 by simp_all
  have "st_iter q = [0, 1, 2, 3, 4, 5, 6, 7, 8, 9]"
    using q(2) unfolding ix iy u .
  with q(1) show ?thesis by (intro exI [of _ q] conjI)
qed

text \<open>
  Claim C7. For two non-empty queues holding search trees such that the maximum of
  \<^verbatim>\<open>x\<close> is not less than the minimum of \<^verbatim>\<open>y\<close>, both \<^verbatim>\<open>special_merge(x, y)\<close> and
  \<^verbatim>\<open>special_merge_persistent(x, y)\<close> stop at their \<^verbatim>\<open>assert\<close> with an assertion error
  and return no queue.
\<close>

theorem special_merge_assertion:
  assumes "root (h x) \<noteq> Empty" and "root (h y) \<noteq> Empty"
    and "bst (root (h x))" and "bst (root (h y))"
    and "\<not> Max (set_tree (root (h x))) < Min (set_tree (root (h y)))"
  shows "special_merge h x y = Some (Inl AssertionError)
      \<and> special_merge_persistent h x y = Some (Inl AssertionError)"
proof -
  have "rightmost (root (h x)) = Inr (Max (set_tree (root (h x))))"
    using assms(3,1) by (rule rightmost_Max)
  moreover have "min_val (h y) = Inr (Min (set_tree (root (h y))))"
    using assms(4,2) by (simp add: min_val_def leftmost_Min)
  ultimately show ?thesis
    using assms(5) by (simp add: special_merge_def special_merge_persistent_def)
qed

text \<open>The overlapping ranges \<open>{0, 5}\<close> and \<open>{3, 8}\<close>.\<close>

theorem special_merge_assertion_witness:
  "root (SearchTree_init [0, 5 :: int] Empty) \<noteq> Empty
   \<and> root (SearchTree_init [3, 8 :: int] Empty) \<noteq> Empty
   \<and> bst (root (SearchTree_init [0, 5 :: int] Empty))
   \<and> bst (root (SearchTree_init [3, 8 :: int] Empty))
   \<and> \<not> Max (set_tree (root (SearchTree_init [0, 5 :: int] Empty)))
         < Min (set_tree (root (SearchTree_init [3, 8 :: int] Empty)))
   \<and> special_merge
        ((\<lambda>r::nat. \<lparr>root = Empty\<rparr>)
           (0 := SearchTree_init [0, 5 :: int] Empty, 1 := SearchTree_init [3, 8] Empty)) 0 1
       = Some (Inl AssertionError)
   \<and> special_merge_persistent
        ((\<lambda>r::nat. \<lparr>root = Empty\<rparr>)
           (0 := SearchTree_init [0, 5 :: int] Empty, 1 := SearchTree_init [3, 8] Empty)) 0 1
       = Some (Inl AssertionError)"
proof -
  let ?h = "(\<lambda>r::nat. \<lparr>root = Empty\<rparr>)
    (0 := SearchTree_init [0, 5 :: int] Empty, 1 := SearchTree_init [3, 8] Empty)"
  let ?x = "SearchTree_init [0, 5 :: int] Empty"
  let ?y = "SearchTree_init [3, 8 :: int] Empty"
  have x: "root ?x \<noteq> Empty" "bst (root ?x)" and y: "root ?y \<noteq> Empty" "bst (root ?y)"
    and m: "\<not> Max (set_tree (root ?x)) < Min (set_tree (root ?y))"
    by (simp_all add: SearchTree_init_def st_insert_def)
  have h0: "?h 0 = ?x" and h1: "?h 1 = ?y" by simp_all
  have r: "special_merge ?h 0 1 = Some (Inl AssertionError)
      \<and> special_merge_persistent ?h 0 1 = Some (Inl AssertionError)"
    by (rule special_merge_assertion) (simp_all only: h0 h1 x y m not_False_eq_True)
  show ?thesis
    by (intro conjI x y m conjunct1 [OF r] conjunct2 [OF r])
qed

subsection \<open>Failures on empty queues, and inserting twice\<close>

text \<open>
  Claim C8. On an empty queue, reading \<^verbatim>\<open>min_val\<close> and calling \<^verbatim>\<open>delete_min\<close> each
  raise at once instead of returning a value: \<^verbatim>\<open>leftmost\<close> reads \<^verbatim>\<open>tree.left\<close> of
  \<^verbatim>\<open>None\<close>, and the exception (Python's \<^verbatim>\<open>AttributeError\<close>) is the result the caller gets.
\<close>

theorem empty_queue_fails:
  assumes "root q = Empty"
  shows "min_val q = Inl AttributeError \<and> delete_min q = Inl AttributeError"
  using assms by (simp add: min_val_def delete_min_def)

text \<open>The queue built from no data.\<close>

theorem empty_queue_fails_witness:
  "root (SearchTree_init ([] :: int list) Empty) = Empty
   \<and> min_val (SearchTree_init ([] :: int list) Empty) = Inl AttributeError
   \<and> delete_min (SearchTree_init ([] :: int list) Empty) = Inl AttributeError"
proof -
  have e: "root (SearchTree_init ([] :: int list) Empty) = Empty"
    by (simp add: SearchTree_init_def)
  show ?thesis using e empty_queue_fails [OF e] by simp
qed

text \<open>
  Claim C9. Inserting a value that a search tree already holds returns a tree equal to
  the one given, so the queue object, the list it iterates and the set of its values
  are unchanged. (Equality is that of the trees as values, the \<^verbatim>\<open>==\<close> of the dataclass.)
\<close>

theorem insert_present_identity:
  assumes "bst t" and "v \<in> set_tree t"
  shows "insert_tree t v = t
      \<and> st_insert \<lparr>root = t\<rparr> v = \<lparr>root = t\<rparr>
      \<and> st_iter (st_insert \<lparr>root = t\<rparr> v) = st_iter \<lparr>root = t\<rparr>
      \<and> set_tree (root (st_insert \<lparr>root = t\<rparr> v)) = set_tree t"
  using insert_tree_present [OF assms] by (simp add: st_insert_def)

text \<open>Inserting 3, held by a leaf, into a search tree of five values.\<close>

theorem insert_present_identity_witness:
  "bst (Node (5::int) (Node 2 (Node 1 Empty Empty) (Node 3 Empty Empty)) (Node 8 Empty Empty))
   \<and> (3::int) \<in> set_tree (Node 5 (Node 2 (Node 1 Empty Empty) (Node 3 Empty Empty)) (Node 8 Empty Empty))
   \<and> insert_tree (Node (5::int) (Node 2 (Node 1 Empty Empty) (Node 3 Empty Empty)) (Node 8 Empty Empty)) 3
       = Node 5 (Node 2 (Node 1 Empty Empty) (Node 3 Empty Empty)) (Node 8 Empty Empty)"
proof -
  let ?t = "Node (5::int) (Node 2 (Node 1 Empty Empty) (Node 3 Empty Empty)) (Node 8 Empty Empty)"
  have b: "bst ?t" and m: "3 \<in> set_tree ?t" by simp_all
  show ?thesis using b m insert_present_identity [OF b m] by simp
qed

text \<open>
  Claim C10. When \<^verbatim>\<open>x\<close> is empty or \<^verbatim>\<open>y\<close> is empty, \<^verbatim>\<open>special_merge(x, y)\<close> and
  \<^verbatim>\<open>special_merge_persistent(x, y)\<close> both raise in the first two lines, where
  \<^verbatim>\<open>rightmost(x.root)\<close> or \<^verbatim>\<open>y.min_val\<close> reads a field of \<^verbatim>\<open>None\<close>; no queue is returned.
\<close>

theorem special_merge_empty_operand:
  assumes "root (h x) = Empty \<or> root (h y) = Empty"
  shows "special_merge h x y = Some (Inl AttributeError)
      \<and> special_merge_persistent h x y = Some (Inl AttributeError)"
proof (cases "root (h x) = Empty")
  case True
  then show ?thesis by (simp add: special_merge_def special_merge_persistent_def)
next
  case False
  then obtain a where "rightmost (root (h x)) = Inr a"
    using rightmost_Node by blast
  moreover have "min_val (h y) = Inl AttributeError"
    using False assms by (simp add: min_val_def)
  ultimately show ?thesis by (simp add: special_merge_def special_merge_persistent_def)
qed

text \<open>An empty queue as the first operand, and as the second.\<close>

theorem special_merge_empty_operand_witness:
  "root (((\<lambda>r::nat. \<lparr>root = Empty\<rparr>)(1 := SearchTree_init [3, 8 :: int] Empty)) 0) = Empty
   \<and> special_merge ((\<lambda>r::nat. \<lparr>root = Empty\<rparr>)(1 := SearchTree_init [3, 8 :: int] Empty)) 0 1
       = Some (Inl AttributeError)
   \<and> special_merge_persistent ((\<lambda>r::nat. \<lparr>root = Empty\<rparr>)(1 := SearchTree_init [3, 8 :: int] Empty)) 0 1
       = Some (Inl AttributeError)
   \<and> special_merge ((\<lambda>r::nat. \<lparr>root = Empty\<rparr>)(1 := SearchTree_init [3, 8 :: int] Empty)) 1 0
       = Some (Inl AttributeError)
   \<and> special_merge_persistent ((\<lambda>r::nat. \<lparr>root = Empty\<rparr>)(1 := SearchTree_init [3, 8 :: int] Empty)) 1 0
       = Some (Inl AttributeError)"
proof -
  let ?h = "(\<lambda>r::nat. \<lparr>root = Empty\<rparr>)(1 := SearchTree_init [3, 8 :: int] Empty)"
  have e: "root (?h 0) = Empty" by simp
  have "root (?h 0) = Empty \<or> root (?h 1) = Empty" using e by simp
  from special_merge_empty_operand [OF this] have x_empty:
    "special_merge ?h 0 1 = Some (Inl AttributeError)
     \<and> special_merge_persistent ?h 0 1 = Some (Inl AttributeError)" .
  have "root (?h 1) = Empty \<or> root (?h 0) = Empty" using e by simp
  from special_merge_empty_operand [OF this] have y_empty:
    "special_merge ?h 1 0 = Some (Inl AttributeError)
     \<and> special_merge_persistent ?h 1 0 = Some (Inl AttributeError)" .
  show ?thesis using e x_empty y_empty by simp
qed

end
